theory Spec2Isabelle
  imports Main
begin

section \<open>Python values used by \<open>electoral_college.py\<close>\<close>

text \<open>
  A Python \<open>str\<close> is a sequence of Unicode code points, so it is modelled as a list of
  natural numbers (one per code point) and not as a list of bytes. \<open>py\<close> turns an Isabelle
  string literal into such a sequence, for the ASCII literals of the source.
\<close>

type_synonym pystr = "nat list"

definition py :: "string \<Rightarrow> pystr" where
  "py s = map of_char s"

text \<open>
  The exceptions the two functions can raise, with the argument Python gives them:
  \<open>ValueError\<close> with its message, \<open>KeyError\<close> with the missing key, \<open>OSError\<close> with the
  name of a file that cannot be opened.
\<close>

datatype exn = ValueError pystr | KeyError pystr | OSError pystr

text \<open>
  A \<open>dict\<close> keeps its entries in insertion order and its keys unique. It is an association
  list; \<open>d[k]\<close> raises \<open>KeyError(k)\<close> for a missing key, and \<open>d[k] = v\<close> replaces the value
  of an existing key where it stands or appends a new entry at the end.
\<close>

type_synonym 'v dict = "(pystr \<times> 'v) list"

definition getitem :: "'v dict \<Rightarrow> pystr \<Rightarrow> exn + 'v" where
  "getitem d k = (case map_of d k of None \<Rightarrow> Inl (KeyError k) | Some v \<Rightarrow> Inr v)"

fun setitem :: "'v dict \<Rightarrow> pystr \<Rightarrow> 'v \<Rightarrow> 'v dict" where
  "setitem [] k v = [(k, v)]"
| "setitem ((k', v') # d) k v =
     (if k' = k then (k', v) # d else (k', v') # setitem d k v)"

definition keys :: "'v dict \<Rightarrow> pystr list" where
  "keys d = map fst d"

section \<open>\<open>get_winner\<close>\<close>

text \<open>
  The function is modelled with its frame written out: the two dictionaries its
  parameters refer to (Python passes them by reference, so the callee could change them)
  and its two local totals. Every statement of the source is a function from frame to
  frame, together with the exception it raises, if any.
\<close>

record frame =
  elector_dict :: "int dict"
  outcome_dict :: "pystr dict"
  total_R_votes :: int
  total_D_votes :: int

definition invalid_outcome_msg :: pystr where
  "invalid_outcome_msg =
     py ''Invalid outcome value. Should be either '' @ [39] @ py ''R'' @ [39] @
     py '' or '' @ [39] @ py ''D'' @ [39] @ py ''.''"

text \<open>The body of the \<open>for\<close> loop, for one \<open>(state, outcome)\<close> item.\<close>

definition loop_body :: "pystr \<times> pystr \<Rightarrow> frame \<Rightarrow> exn option \<times> frame" where
  "loop_body item fr =
     (case item of (state, outcome) \<Rightarrow>
        if outcome = py ''R'' then
          (case getitem (elector_dict fr) state of
             Inl e \<Rightarrow> (Some e, fr)
           | Inr n \<Rightarrow> (None, fr\<lparr>total_R_votes := total_R_votes fr + n\<rparr>))
        else if outcome = py ''D'' then
          (case getitem (elector_dict fr) state of
             Inl e \<Rightarrow> (Some e, fr)
           | Inr n \<Rightarrow> (None, fr\<lparr>total_D_votes := total_D_votes fr + n\<rparr>))
        else (Some (ValueError invalid_outcome_msg), fr))"

text \<open>The loop over \<open>outcome_dict.items()\<close>: an exception leaves the loop at once.\<close>

fun for_items :: "(pystr \<times> pystr) list \<Rightarrow> frame \<Rightarrow> exn option \<times> frame" where
  "for_items [] fr = (None, fr)"
| "for_items (item # items) fr =
     (case loop_body item fr of
        (Some e, fr') \<Rightarrow> (Some e, fr')
      | (None, fr') \<Rightarrow> for_items items fr')"

text \<open>
  The whole call: the result (an exception or the returned pair) and the frame the call
  ends with.
\<close>

definition get_winner_frame ::
  "int dict \<Rightarrow> pystr dict \<Rightarrow> (exn + pystr \<times> int) \<times> frame" where
  "get_winner_frame e_dict o_dict =
     (let fr0 = \<lparr>elector_dict = e_dict, outcome_dict = o_dict,
                 total_R_votes = 0, total_D_votes = 0\<rparr>
      in case for_items (outcome_dict fr0) fr0 of
           (Some e, fr) \<Rightarrow> (Inl e, fr)
         | (None, fr) \<Rightarrow>
             (Inr (if total_R_votes fr > total_D_votes fr then (py ''R'', total_R_votes fr)
                   else if total_D_votes fr > total_R_votes fr then (py ''D'', total_D_votes fr)
                   else (py ''Tie'', total_R_votes fr)), fr))"

definition get_winner :: "int dict \<Rightarrow> pystr dict \<Rightarrow> exn + pystr \<times> int" where
  "get_winner e_dict o_dict = fst (get_winner_frame e_dict o_dict)"

text \<open>
  Vocabulary of the claims about \<open>get_winner\<close>. \<open>party_total e o p\<close> is the sum of
  the elector counts of the regions that the outcome mapping assigns to party \<open>p\<close>,
  taken over the items of the outcome mapping; for a mapping (distinct keys) it is the
  sum over the set of those regions (lemma \<open>party_total_as_sum\<close>).
\<close>

definition party_total :: "int dict \<Rightarrow> pystr dict \<Rightarrow> pystr \<Rightarrow> int" where
  "party_total e_dict items p =
     sum_list (map (\<lambda>(s, v). the (map_of e_dict s)) (filter (\<lambda>(s, v). v = p) items))"

definition valid_outcome :: "pystr \<Rightarrow> bool" where
  "valid_outcome v = (v = py ''R'' \<or> v = py ''D'')"

text \<open>
  An exception names a value when the value occurs in its message: \<open>occurs_in v msg\<close>
  holds when \<open>v\<close> is a contiguous part of \<open>msg\<close>.
\<close>

fun occurs_in :: "pystr \<Rightarrow> pystr \<Rightarrow> bool" where
  "occurs_in v [] = (v = [])"
| "occurs_in v (c # cs) = (take (length v) (c # cs) = v \<or> occurs_in v cs)"

section \<open>\<open>to_dict\<close>\<close>

text \<open>
  \<open>str.strip()\<close> removes the leading and trailing code points for which
  \<open>str.isspace()\<close> holds; \<open>is_space\<close> lists them.
\<close>

definition is_space :: "nat \<Rightarrow> bool" where
  "is_space c =
     ((0x09 \<le> c \<and> c \<le> 0x0D) \<or> (0x1C \<le> c \<and> c \<le> 0x20) \<or> c = 0x85 \<or> c = 0xA0 \<or>
      c = 0x1680 \<or> (0x2000 \<le> c \<and> c \<le> 0x200A) \<or> c = 0x2028 \<or> c = 0x2029 \<or>
      c = 0x202F \<or> c = 0x205F \<or> c = 0x3000)"

definition strip :: "pystr \<Rightarrow> pystr" where
  "strip s = rev (dropWhile is_space (rev (dropWhile is_space s)))"

text \<open>
  \<open>s.split(sep)\<close> for a separator of one code point: every occurrence of the separator
  ends a field, so the empty string gives one empty field.
\<close>

fun split_on :: "nat \<Rightarrow> pystr \<Rightarrow> pystr list" where
  "split_on sep [] = [[]]"
| "split_on sep (c # cs) =
     (if c = sep then [] # split_on sep cs
      else (case split_on sep cs of [] \<Rightarrow> [[c]] | w # ws \<Rightarrow> (c # w) # ws))"

text \<open>
  A file opened with \<open>open(filename, "r", encoding="utf-8")\<close> is read in universal
  newlines mode: \<open>\r\n\<close> and \<open>\r\<close> arrive as \<open>\n\<close>. Iterating over the file yields its
  lines, each with its terminating \<open>\n\<close> (the last line may have none).
\<close>

fun universal_newlines :: "pystr \<Rightarrow> pystr" where
  "universal_newlines [] = []"
| "universal_newlines [c] = [if c = 0x0D then 0x0A else c]"
| "universal_newlines (c # c' # cs) =
     (if c = 0x0D \<and> c' = 0x0A then 0x0A # universal_newlines cs
      else if c = 0x0D then 0x0A # universal_newlines (c' # cs)
      else c # universal_newlines (c' # cs))"

fun iter_lines :: "pystr \<Rightarrow> pystr list" where
  "iter_lines [] = []"
| "iter_lines (c # cs) =
     (if c = 0x0A then [c] # iter_lines cs
      else (case iter_lines cs of [] \<Rightarrow> [[c]] | l # ls \<Rightarrow> (c # l) # ls))"

definition file_lines :: "pystr \<Rightarrow> pystr list" where
  "file_lines text = iter_lines (universal_newlines text)"

text \<open>The decimal digits of \<open>n\<close>, as the f-string writes \<open>{n}\<close>.\<close>

fun str_nat :: "nat \<Rightarrow> pystr" where
  "str_nat n = (if n < 10 then [48 + n] else str_nat (n div 10) @ [48 + n mod 10])"

declare str_nat.simps [simp del]

definition columns_msg :: "nat \<Rightarrow> pystr \<Rightarrow> pystr" where
  "columns_msg n filename =
     py ''unexpected number of columns on line '' @ str_nat n @ py '' of '' @ filename"

text \<open>
  The body of the \<open>with\<close> block: the loop over \<open>enumerate(f, start=1)\<close>, with the
  dictionary \<open>lines\<close> built so far. \<open>value_type\<close> is the caller's conversion; it returns
  the converted value or the exception it raises.
\<close>

fun to_dict_loop ::
  "pystr \<Rightarrow> (pystr \<Rightarrow> exn + 'v) \<Rightarrow> (nat \<times> pystr) list \<Rightarrow> 'v dict \<Rightarrow> exn + 'v dict" where
  "to_dict_loop filename value_type [] lines = Inr lines"
| "to_dict_loop filename value_type ((n, line) # rest) lines =
     (let line = strip line in
      if line = [] then to_dict_loop filename value_type rest lines
      else
        let values = split_on 0x09 line in
        if length values \<noteq> 2 then Inl (ValueError (columns_msg n filename))
        else
          (case value_type (values ! 1) of
             Inl e \<Rightarrow> Inl e
           | Inr v \<Rightarrow> to_dict_loop filename value_type rest (setitem lines (values ! 0) v)))"

text \<open>
  \<open>fs\<close> is the file system as \<open>open\<close> sees it: the decoded text of every file that can
  be opened and read as UTF-8, and nothing for the other names, for which \<open>open\<close> raises.
  A file that opens and then fails to decode is not part of the model.
\<close>

definition to_dict ::
  "(pystr \<Rightarrow> pystr option) \<Rightarrow> pystr \<Rightarrow> (pystr \<Rightarrow> exn + 'v) \<Rightarrow> exn + 'v dict" where
  "to_dict fs filename value_type =
     (case fs filename of
        None \<Rightarrow> Inl (OSError filename)
      | Some text \<Rightarrow> to_dict_loop filename value_type (enumerate 1 (file_lines text)) [])"

subsection \<open>The two conversions \<open>read_data\<close> passes\<close>

text \<open>\<open>value_type=str\<close>: the field as it is.\<close>

definition py_str :: "pystr \<Rightarrow> exn + pystr" where
  "py_str s = Inr s"

text \<open>
  Modelled from the spec: \<open>value_type=int\<close> is Python's builtin, which is not code of the
  repository; the spec says the second field of an elector file "parses as a base-10
  integer". The model strips surrounding whitespace, reads an optional sign, and then
  groups of ASCII digits separated by single underscores. It leaves out what the builtin
  adds to that: the other Unicode decimal digits, the limit on the number of digits, and
  the escapes of \<open>repr\<close> in the message (\<open>repr\<close> here only puts the quotes).
\<close>

definition is_digit :: "nat \<Rightarrow> bool" where
  "is_digit c = (48 \<le> c \<and> c \<le> 57)"

definition repr :: "pystr \<Rightarrow> pystr" where
  "repr s = [39] @ s @ [39]"

definition py_int :: "pystr \<Rightarrow> exn + int" where
  "py_int s =
     (let t = strip s;
          neg = (t \<noteq> [] \<and> hd t = 45);
          body = (if t \<noteq> [] \<and> (hd t = 45 \<or> hd t = 43) then tl t else t);
          groups = split_on 95 body
      in if list_all (\<lambda>g. g \<noteq> [] \<and> list_all is_digit g) groups
         then Inr ((if neg then -1 else 1) * int (foldl (\<lambda>a c. 10 * a + (c - 48)) 0 (concat groups)))
         else Inl (ValueError (py ''invalid literal for int() with base 10: '' @ repr s)))"

subsection \<open>Vocabulary of the claims about \<open>to_dict\<close>\<close>

text \<open>
  A line is blank when nothing is left of it after \<open>strip\<close>; its fields are those of the
  stripped line, as the loop computes them. \<open>line_ok\<close> holds of a line that the loop
  passes without raising: a blank line, or a line of two fields whose second field the
  conversion accepts.
\<close>

definition blank :: "pystr \<Rightarrow> bool" where
  "blank line = (strip line = [])"

definition line_fields :: "pystr \<Rightarrow> pystr list" where
  "line_fields line = split_on 0x09 (strip line)"

definition converts :: "(pystr \<Rightarrow> exn + 'v) \<Rightarrow> pystr \<Rightarrow> bool" where
  "converts value_type line =
     (case value_type (line_fields line ! 1) of Inl e \<Rightarrow> False | Inr v \<Rightarrow> True)"

definition line_ok :: "(pystr \<Rightarrow> exn + 'v) \<Rightarrow> pystr \<Rightarrow> bool" where
  "line_ok value_type line =
     (blank line \<or> (length (line_fields line) = 2 \<and> converts value_type line))"

text \<open>
  Modelled from the spec: the repository has no serializer; the round trip of the spec
  writes each key/value pair of a mapping as one line, key and value joined by a tab.
\<close>

definition serialize :: "pystr dict \<Rightarrow> pystr" where
  "serialize d = concat (map (\<lambda>(k, v). k @ [0x09] @ v @ [0x0A]) d)"

text \<open>
  What \<open>to_dict\<close> with \<open>value_type=str\<close> can store, as the round trip needs it: key and
  value are not empty, hold no tab, line feed or carriage return, the key does not start
  with whitespace and the value does not end with it.
\<close>

definition clean_entry :: "pystr \<times> pystr \<Rightarrow> bool" where
  "clean_entry e =
     (case e of (k, v) \<Rightarrow>
        k \<noteq> [] \<and> v \<noteq> [] \<and> \<not> is_space (hd k) \<and> \<not> is_space (last v) \<and>
        9 \<notin> set k \<and> 9 \<notin> set v \<and> 10 \<notin> set k \<and> 10 \<notin> set v \<and>
        13 \<notin> set k \<and> 13 \<notin> set v)"

subsection \<open>Sample inputs\<close>

definition ex_electors :: "int dict" where
  "ex_electors = [(py ''A'', 3), (py ''B'', 5), (py ''C'', 2)]"

definition ex_outcomes :: "pystr dict" where
  "ex_outcomes = [(py ''A'', py ''R''), (py ''B'', py ''D''), (py ''C'', py ''D'')]"

definition ex_outcomes_invalid :: "pystr dict" where
  "ex_outcomes_invalid = [(py ''A'', py ''R''), (py ''B'', py ''X''), (py ''C'', py ''D'')]"

definition ex_outcomes_unknown_region :: "pystr dict" where
  "ex_outcomes_unknown_region = [(py ''A'', py ''R''), (py ''Z'', py ''D''), (py ''C'', py ''D'')]"

definition ex_outcomes_invalid_unknown :: "pystr dict" where
  "ex_outcomes_invalid_unknown = [(py ''A'', py ''R''), (py ''Z'', py ''X''), (py ''C'', py ''D'')]"

definition ex_file :: pystr where
  "ex_file = py ''electors.txt''"

definition ex_three_columns :: pystr where
  "ex_three_columns =
     py ''A'' @ [9] @ py ''3'' @ [10] @ [10] @ py ''B'' @ [9] @ py ''5'' @ [9] @ py ''x'' @ [10]"

definition ex_bad_int_then_one_column :: pystr where
  "ex_bad_int_then_one_column = py ''A'' @ [9] @ py ''x'' @ [10] @ py ''B'' @ [10]"

definition ex_three_columns_then_bad_int :: pystr where
  "ex_three_columns_then_bad_int =
     py ''A'' @ [9] @ py ''B'' @ [9] @ py ''C'' @ [10] @ py ''A'' @ [9] @ py ''x'' @ [10]"

definition ex_bad_int :: pystr where
  "ex_bad_int = py ''A'' @ [9] @ py ''3'' @ [10] @ py ''B'' @ [9] @ py ''five'' @ [10]"

definition ex_duplicate_key :: pystr where
  "ex_duplicate_key =
     py ''A'' @ [9] @ py ''3'' @ [10] @ py ''B'' @ [9] @ py ''5'' @ [10] @
     py ''A'' @ [9] @ py ''7'' @ [10]"

definition ex_outcome_text :: pystr where
  "ex_outcome_text =
     py ''A'' @ [9] @ py ''R'' @ [10] @ [10] @
     py '' B '' @ [9] @ py '' D '' @ [13, 10] @
     py ''A'' @ [9] @ py ''D''"

definition ex_copy :: pystr where
  "ex_copy = py ''copy.txt''"

section \<open>Properties of \<open>get_winner\<close>\<close>

lemma py_R_neq_D: "py ''R'' \<noteq> py ''D''"
  by (simp add: py_def)

lemma loop_body_dicts:
  "elector_dict (snd (loop_body item fr)) = elector_dict fr \<and>
   outcome_dict (snd (loop_body item fr)) = outcome_dict fr"
  by (cases item) (simp add: loop_body_def split: sum.splits)

lemma for_items_dicts:
  "elector_dict (snd (for_items items fr)) = elector_dict fr \<and>
   outcome_dict (snd (for_items items fr)) = outcome_dict fr"
proof (induction items arbitrary: fr)
  case Nil
  show ?case by simp
next
  case (Cons item items)
  obtain r fr' where b: "loop_body item fr = (r, fr')"
    by (cases "loop_body item fr")
  have d: "elector_dict fr' = elector_dict fr \<and> outcome_dict fr' = outcome_dict fr"
    using loop_body_dicts [of item fr] b by simp
  show ?case
  proof (cases r)
    case None
    then show ?thesis using b d Cons.IH [of fr'] by simp
  next
    case (Some e)
    then show ?thesis using b d by simp
  qed
qed

lemma for_items_append:
  "for_items (xs @ ys) fr =
     (case for_items xs fr of (Some e, fr') \<Rightarrow> (Some e, fr') | (None, fr') \<Rightarrow> for_items ys fr')"
  by (induction xs arbitrary: fr) (auto split: prod.splits option.splits)

lemma loop_body_ok:
  assumes "valid_outcome v" and "map_of (elector_dict fr) s = Some n"
  shows "loop_body (s, v) fr =
           (None, fr\<lparr>total_R_votes := total_R_votes fr + (if v = py ''R'' then n else 0),
                     total_D_votes := total_D_votes fr + (if v = py ''D'' then n else 0)\<rparr>)"
  using assms py_R_neq_D by (auto simp: loop_body_def valid_outcome_def getitem_def)

lemma for_items_ok:
  assumes "\<forall>(s, v) \<in> set items. valid_outcome v \<and> s \<in> dom (map_of (elector_dict fr))"
  shows "for_items items fr =
           (None, fr\<lparr>total_R_votes := total_R_votes fr + party_total (elector_dict fr) items (py ''R''),
                     total_D_votes := total_D_votes fr + party_total (elector_dict fr) items (py ''D'')\<rparr>)"
  using assms
proof (induction items arbitrary: fr)
  case Nil
  show ?case by (simp add: party_total_def)
next
  case (Cons item items)
  obtain s v where item: "item = (s, v)" by (cases item)
  from Cons.prems item obtain n where
    v: "valid_outcome v" and n: "map_of (elector_dict fr) s = Some n"
    by auto
  let ?fr = "fr\<lparr>total_R_votes := total_R_votes fr + (if v = py ''R'' then n else 0),
                 total_D_votes := total_D_votes fr + (if v = py ''D'' then n else 0)\<rparr>"
  have step: "loop_body item fr = (None, ?fr)"
    using loop_body_ok [OF v n] item by simp
  have "\<forall>(s, v) \<in> set items. valid_outcome v \<and> s \<in> dom (map_of (elector_dict ?fr))"
    using Cons.prems by simp
  from Cons.IH [OF this] step item n show ?case
    by (simp add: party_total_def)
qed


lemma party_total_as_sum:
  assumes "distinct (keys items)"
  shows "party_total e_dict items p = (\<Sum>s \<in> {s. map_of items s = Some p}. the (map_of e_dict s))"
  using assms
proof (induction items)
  case Nil
  show ?case by (simp add: party_total_def)
next
  case (Cons item items)
  obtain k v where item: "item = (k, v)" by (cases item)
  have fresh: "map_of items k = None"
    using Cons.prems item by (simp add: keys_def map_of_eq_None_iff)
  have fin: "finite {s. map_of items s = Some p}"
    by (rule finite_subset [of _ "dom (map_of items)"]) (auto simp: finite_dom_map_of)
  have notin: "k \<notin> {s. map_of items s = Some p}"
    using fresh by simp
  have sets: "{s. map_of (item # items) s = Some p} =
              (if v = p then insert k {s. map_of items s = Some p} else {s. map_of items s = Some p})"
    using fresh item by auto
  have IH: "party_total e_dict items p = (\<Sum>s \<in> {s. map_of items s = Some p}. the (map_of e_dict s))"
    using Cons by (simp add: keys_def)
  have "party_total e_dict (item # items) p =
          (if v = p then the (map_of e_dict k) else 0) + party_total e_dict items p"
    using item by (simp add: party_total_def)
  then show ?case
    using IH sets fin notin by simp
qed

lemma get_winner_frame_ok:
  assumes "\<forall>(s, v) \<in> set o_dict. valid_outcome v \<and> s \<in> dom (map_of e_dict)"
  shows "get_winner e_dict o_dict =
           Inr (if party_total e_dict o_dict (py ''R'') > party_total e_dict o_dict (py ''D'')
                then (py ''R'', party_total e_dict o_dict (py ''R''))
                else if party_total e_dict o_dict (py ''D'') > party_total e_dict o_dict (py ''R'')
                then (py ''D'', party_total e_dict o_dict (py ''D''))
                else (py ''Tie'', party_total e_dict o_dict (py ''R'')))"
proof -
  let ?fr0 = "\<lparr>elector_dict = e_dict, outcome_dict = o_dict,
                total_R_votes = 0, total_D_votes = 0\<rparr>"
  have "\<forall>(s, v) \<in> set o_dict. valid_outcome v \<and> s \<in> dom (map_of (elector_dict ?fr0))"
    using assms by simp
  from for_items_ok [OF this] show ?thesis
    by (simp add: get_winner_def get_winner_frame_def)
qed

text \<open>
  Claim C1. For an elector mapping and an outcome mapping whose values are all "R" or
  "D" and whose keys all occur in the elector mapping, \<open>get_winner\<close> returns exactly
  one of ("R", R-total), ("D", D-total) and ("Tie", shared total): a party's total is the
  sum of the elector counts of the regions assigned to it, and the winner is "R" when
  the R-total is greater, "D" when the D-total is greater, "Tie" when they are equal.
\<close>

theorem get_winner_tally:
  assumes "distinct (keys o_dict)"
    and "\<forall>(s, v) \<in> set o_dict. v = py ''R'' \<or> v = py ''D''"
    and "set (keys o_dict) \<subseteq> set (keys e_dict)"
  shows "(let r = party_total e_dict o_dict (py ''R'');
              d = party_total e_dict o_dict (py ''D'')
          in r = (\<Sum>s \<in> {s. map_of o_dict s = Some (py ''R'')}. the (map_of e_dict s)) \<and>
             d = (\<Sum>s \<in> {s. map_of o_dict s = Some (py ''D'')}. the (map_of e_dict s)) \<and>
             (r > d \<longrightarrow> get_winner e_dict o_dict = Inr (py ''R'', r)) \<and>
             (d > r \<longrightarrow> get_winner e_dict o_dict = Inr (py ''D'', d)) \<and>
             (r = d \<longrightarrow> get_winner e_dict o_dict = Inr (py ''Tie'', r)))"
proof -
  have "\<forall>(s, v) \<in> set o_dict. valid_outcome v \<and> s \<in> dom (map_of e_dict)"
    using assms(2,3) by (force simp: valid_outcome_def keys_def dom_map_of_conv_image_fst)
  from get_winner_frame_ok [OF this] party_total_as_sum [OF assms(1)] show ?thesis
    by (simp add: Let_def)
qed

theorem get_winner_tally_witness:
  "party_total ex_electors ex_outcomes (py ''R'') = 3 \<and>
   party_total ex_electors ex_outcomes (py ''D'') = 7 \<and>
   get_winner ex_electors ex_outcomes = Inr (py ''D'', 7)"
proof -
  have h1: "distinct (keys ex_outcomes)"
    by (simp add: ex_outcomes_def keys_def py_def)
  have h2: "\<forall>(s, v) \<in> set ex_outcomes. v = py ''R'' \<or> v = py ''D''"
    by (simp add: ex_outcomes_def)
  have h3: "set (keys ex_outcomes) \<subseteq> set (keys ex_electors)"
    by (simp add: ex_outcomes_def ex_electors_def keys_def)
  have r: "party_total ex_electors ex_outcomes (py ''R'') = 3"
    by (simp add: ex_outcomes_def ex_electors_def party_total_def py_def)
  have d: "party_total ex_electors ex_outcomes (py ''D'') = 7"
    by (simp add: ex_outcomes_def ex_electors_def party_total_def py_def)
  from get_winner_tally [OF h1 h2 h3] r d show ?thesis
    by (simp add: Let_def)
qed

text \<open>
  Claim C9. For the empty outcome mapping and any elector mapping, \<open>get_winner\<close> returns
  \<open>("Tie", 0)\<close>: both totals start at zero, the loop body never runs, and the equality
  branch of the decision rule reports the tie.
\<close>

theorem get_winner_empty: "get_winner e_dict [] = Inr (py ''Tie'', 0)"
  by (simp add: get_winner_def get_winner_frame_def)

theorem get_winner_empty_witness:
  "get_winner [(py ''A'', 3), (py ''B'', 5)] [] = Inr (py ''Tie'', 0)"
  using get_winner_empty [of "[(py ''A'', 3), (py ''B'', 5)]"] by simp

lemma loop_body_invalid:
  "\<not> valid_outcome v \<Longrightarrow> loop_body (s, v) fr = (Some (ValueError invalid_outcome_msg), fr)"
  by (simp add: loop_body_def valid_outcome_def)

lemma loop_body_missing:
  "valid_outcome v \<Longrightarrow> map_of (elector_dict fr) s = None \<Longrightarrow>
   loop_body (s, v) fr = (Some (KeyError s), fr)"
  by (auto simp: loop_body_def valid_outcome_def getitem_def)

lemma for_items_stops:
  assumes "\<forall>(s, v) \<in> set pre. valid_outcome v \<and> s \<in> dom (map_of (elector_dict fr))"
    and "loop_body item
           (fr\<lparr>total_R_votes := total_R_votes fr + party_total (elector_dict fr) pre (py ''R''),
               total_D_votes := total_D_votes fr + party_total (elector_dict fr) pre (py ''D'')\<rparr>)
         = (Some e, fr')"
  shows "for_items (pre @ item # post) fr = (Some e, fr')"
  using for_items_ok [OF assms(1)] assms(2) by (simp add: for_items_append)

lemma get_winner_frame_stops:
  assumes "\<forall>(s, v) \<in> set pre. valid_outcome v \<and> s \<in> dom (map_of e_dict)"
    and "loop_body item
           \<lparr>elector_dict = e_dict, outcome_dict = pre @ item # post,
            total_R_votes = party_total e_dict pre (py ''R''),
            total_D_votes = party_total e_dict pre (py ''D'')\<rparr>
         = (Some e, fr')"
  shows "get_winner_frame e_dict (pre @ item # post) = (Inl e, fr')"
proof -
  let ?fr0 = "\<lparr>elector_dict = e_dict, outcome_dict = pre @ item # post,
                total_R_votes = 0, total_D_votes = 0\<rparr>"
  have a: "\<forall>(s, v) \<in> set pre. valid_outcome v \<and> s \<in> dom (map_of (elector_dict ?fr0))"
    using assms(1) by simp
  have b: "loop_body item
           (?fr0\<lparr>total_R_votes := total_R_votes ?fr0 + party_total (elector_dict ?fr0) pre (py ''R''),
                 total_D_votes := total_D_votes ?fr0 + party_total (elector_dict ?fr0) pre (py ''D'')\<rparr>)
         = (Some e, fr')"
    using assms(2) by simp
  from for_items_stops [OF a b, of post] show ?thesis
    by (simp add: get_winner_frame_def)
qed

lemma takeWhile_split:
  assumes "\<exists>x \<in> set xs. \<not> P x"
  shows "\<exists>x post. xs = takeWhile P xs @ x # post \<and> \<not> P x"
proof -
  have ne: "dropWhile P xs \<noteq> []"
    using assms by (simp add: dropWhile_eq_Nil_conv)
  then obtain x post where d: "dropWhile P xs = x # post"
    by (cases "dropWhile P xs") auto
  have "\<not> P x"
    using hd_dropWhile [OF ne] d by simp
  moreover have "xs = takeWhile P xs @ x # post"
    using takeWhile_dropWhile_id [of P xs] d by simp
  ultimately show ?thesis by blast
qed

text \<open>
  Claim C2, as amended. For an outcome mapping with at least one entry whose value is
  neither "R" nor "D", all of whose regions are in the elector mapping, \<open>get_winner\<close>
  raises the \<open>ValueError\<close> with the fixed message \<open>invalid_outcome_msg\<close>, and the first
  invalid entry ends the computation: the totals at that moment are those of the entries
  before it, whatever follows it.
\<close>

theorem get_winner_invalid_outcome:
  assumes "\<exists>(s, v) \<in> set o_dict. v \<noteq> py ''R'' \<and> v \<noteq> py ''D''"
    and "set (keys o_dict) \<subseteq> set (keys e_dict)"
  shows "get_winner e_dict o_dict = Inl (ValueError invalid_outcome_msg) \<and>
         total_R_votes (snd (get_winner_frame e_dict o_dict)) =
           party_total e_dict (takeWhile (\<lambda>(s, v). valid_outcome v) o_dict) (py ''R'') \<and>
         total_D_votes (snd (get_winner_frame e_dict o_dict)) =
           party_total e_dict (takeWhile (\<lambda>(s, v). valid_outcome v) o_dict) (py ''D'')"
proof -
  let ?P = "\<lambda>(s, v). valid_outcome v"
  let ?pre = "takeWhile ?P o_dict"
  have "\<exists>x \<in> set o_dict. \<not> ?P x"
    using assms(1) by (auto simp: valid_outcome_def)
  from takeWhile_split [OF this] obtain x post where
    split: "o_dict = ?pre @ x # post" and x: "\<not> ?P x" by blast
  obtain s v where sv: "x = (s, v)" by (cases x)
  have pre: "\<forall>(s, v) \<in> set ?pre. valid_outcome v \<and> s \<in> dom (map_of e_dict)"
  proof (clarify, rule conjI)
    fix s' v'
    assume m: "(s', v') \<in> set ?pre"
    from set_takeWhileD [OF m] show "valid_outcome v'" by simp
    from set_takeWhileD [OF m] have "s' \<in> set (keys o_dict)"
      by (force simp: keys_def)
    with assms(2) show "s' \<in> dom (map_of e_dict)"
      by (auto simp: keys_def dom_map_of_conv_image_fst)
  qed
  let ?fr = "\<lparr>elector_dict = e_dict, outcome_dict = ?pre @ x # post,
               total_R_votes = party_total e_dict ?pre (py ''R''),
               total_D_votes = party_total e_dict ?pre (py ''D'')\<rparr>"
  have "loop_body x ?fr = (Some (ValueError invalid_outcome_msg), ?fr)"
    using x sv loop_body_invalid [of v s ?fr] by simp
  from get_winner_frame_stops [OF pre this] split
  have "get_winner_frame e_dict o_dict = (Inl (ValueError invalid_outcome_msg), ?fr)"
    by simp
  then show ?thesis by (simp add: get_winner_def)
qed

theorem get_winner_invalid_outcome_witness:
  "get_winner ex_electors ex_outcomes_invalid = Inl (ValueError invalid_outcome_msg) \<and>
   total_R_votes (snd (get_winner_frame ex_electors ex_outcomes_invalid)) = 3 \<and>
   total_D_votes (snd (get_winner_frame ex_electors ex_outcomes_invalid)) = 0"
proof -
  have h1: "\<exists>(s, v) \<in> set ex_outcomes_invalid. v \<noteq> py ''R'' \<and> v \<noteq> py ''D''"
    by (simp add: ex_outcomes_invalid_def py_def)
  have h2: "set (keys ex_outcomes_invalid) \<subseteq> set (keys ex_electors)"
    by (simp add: ex_outcomes_invalid_def ex_electors_def keys_def)
  have t: "takeWhile (\<lambda>(s, v). valid_outcome v) ex_outcomes_invalid = [(py ''A'', py ''R'')]"
    by (simp add: ex_outcomes_invalid_def valid_outcome_def py_def)
  from get_winner_invalid_outcome [OF h1 h2] show ?thesis
    by (simp add: t party_total_def ex_electors_def py_def)
qed

text \<open>
  Claim C2 as stated fails: the exception does not name the offending value. The
  outcome values "X" and "Y" give the same exception, and neither occurs in its message.
\<close>

theorem get_winner_invalid_outcome_counterexample:
  "get_winner ex_electors ex_outcomes_invalid = Inl (ValueError invalid_outcome_msg) \<and>
   get_winner ex_electors [(py ''A'', py ''R''), (py ''B'', py ''Y''), (py ''C'', py ''D'')] =
     Inl (ValueError invalid_outcome_msg) \<and>
   \<not> occurs_in (py ''X'') invalid_outcome_msg \<and>
   \<not> occurs_in (py ''Y'') invalid_outcome_msg"
  by (simp add: get_winner_def get_winner_frame_def loop_body_def getitem_def
      ex_electors_def ex_outcomes_invalid_def invalid_outcome_msg_def py_def)

lemma find_first:
  "\<forall>y \<in> set pre. \<not> P y \<Longrightarrow> P x \<Longrightarrow> find P (pre @ x # post) = Some x"
  by (induction pre) auto

text \<open>
  Claim C3. When every outcome value is "R" or "D" and some region of the outcome
  mapping is absent from the elector mapping, \<open>get_winner\<close> raises the \<open>KeyError\<close> that
  the lookup \<open>elector_dict[state]\<close> raises for the first such region, as it is: the
  region is not skipped and the exception is not wrapped.
\<close>

theorem get_winner_missing_region:
  assumes "\<forall>(s, v) \<in> set o_dict. v = py ''R'' \<or> v = py ''D''"
    and "\<not> set (keys o_dict) \<subseteq> set (keys e_dict)"
  shows "\<exists>s. find (\<lambda>s. s \<notin> set (keys e_dict)) (keys o_dict) = Some s \<and>
             getitem e_dict s = Inl (KeyError s) \<and>
             get_winner e_dict o_dict = Inl (KeyError s)"
proof -
  let ?P = "\<lambda>(s, v). s \<notin> set (keys e_dict)"
  have "\<exists>x \<in> set o_dict. ?P x"
    using assms(2) by (auto simp: keys_def)
  from split_list_first_prop [OF this] obtain pre x post where
    split: "o_dict = pre @ x # post" and x: "?P x" and before: "\<forall>y \<in> set pre. \<not> ?P y"
    by blast
  obtain s v where sv: "x = (s, v)" by (cases x)
  have s: "map_of e_dict s = None"
    using x sv by (simp add: keys_def map_of_eq_None_iff)
  have v: "valid_outcome v"
    using assms(1) split sv by (auto simp: valid_outcome_def)
  have pre: "\<forall>(s, v) \<in> set pre. valid_outcome v \<and> s \<in> dom (map_of e_dict)"
    using assms(1) split before
    by (auto simp: valid_outcome_def keys_def dom_map_of_conv_image_fst)
  let ?fr = "\<lparr>elector_dict = e_dict, outcome_dict = pre @ x # post,
               total_R_votes = party_total e_dict pre (py ''R''),
               total_D_votes = party_total e_dict pre (py ''D'')\<rparr>"
  have "loop_body x ?fr = (Some (KeyError s), ?fr)"
    using sv loop_body_missing [OF v, of ?fr s] s by simp
  from get_winner_frame_stops [OF pre this] split
  have g: "get_winner e_dict o_dict = Inl (KeyError s)"
    by (simp add: get_winner_def)
  have "\<forall>y \<in> set (keys pre). \<not> y \<notin> set (keys e_dict)"
    using before by (auto simp: keys_def)
  moreover have "s \<notin> set (keys e_dict)" using x sv by simp
  ultimately have "find (\<lambda>s. s \<notin> set (keys e_dict)) (keys pre @ s # keys post) = Some s"
    by (rule find_first)
  then have f: "find (\<lambda>s. s \<notin> set (keys e_dict)) (keys o_dict) = Some s"
    using split sv by (simp add: keys_def)
  from f g s show ?thesis by (auto simp: getitem_def)
qed

theorem get_winner_missing_region_witness:
  "getitem ex_electors (py ''Z'') = Inl (KeyError (py ''Z'')) \<and>
   get_winner ex_electors ex_outcomes_unknown_region = Inl (KeyError (py ''Z''))"
proof -
  have h1: "\<forall>(s, v) \<in> set ex_outcomes_unknown_region. v = py ''R'' \<or> v = py ''D''"
    by (simp add: ex_outcomes_unknown_region_def)
  have h2: "\<not> set (keys ex_outcomes_unknown_region) \<subseteq> set (keys ex_electors)"
    by (simp add: ex_outcomes_unknown_region_def ex_electors_def keys_def py_def)
  have f: "find (\<lambda>s. s \<notin> set (keys ex_electors)) (keys ex_outcomes_unknown_region) = Some (py ''Z'')"
    by (simp add: ex_outcomes_unknown_region_def ex_electors_def keys_def py_def)
  from get_winner_missing_region [OF h1 h2] f show ?thesis
    by auto
qed

lemma loop_body_KeyError:
  assumes "loop_body (s, v) fr = (Some (KeyError k), fr')"
  shows "s = k \<and> valid_outcome v"
  using assms
  by (auto simp: loop_body_def getitem_def valid_outcome_def
           split: if_splits option.splits)

lemma for_items_KeyError:
  "for_items items fr = (Some (KeyError k), fr') \<Longrightarrow>
   \<exists>v. (k, v) \<in> set items \<and> valid_outcome v"
proof (induction items arbitrary: fr)
  case Nil
  then show ?case by simp
next
  case (Cons item items)
  obtain s v where item: "item = (s, v)" by (cases item)
  obtain r fr1 where b: "loop_body (s, v) fr = (r, fr1)"
    by (cases "loop_body (s, v) fr")
  show ?case
  proof (cases r)
    case None
    with Cons.prems item b have "for_items items fr1 = (Some (KeyError k), fr')"
      by simp
    from Cons.IH [OF this] show ?thesis by auto
  next
    case (Some e)
    with Cons.prems item b have "loop_body (s, v) fr = (Some (KeyError k), fr')"
      by simp
    from loop_body_KeyError [OF this] item show ?thesis by auto
  qed
qed

lemma get_winner_KeyError:
  assumes "get_winner e_dict o_dict = Inl (KeyError k)"
  shows "\<exists>v. (k, v) \<in> set o_dict \<and> valid_outcome v"
proof -
  let ?fr0 = "\<lparr>elector_dict = e_dict, outcome_dict = o_dict,
                total_R_votes = 0, total_D_votes = 0\<rparr>"
  obtain r fr where f: "for_items o_dict ?fr0 = (r, fr)"
    by (cases "for_items o_dict ?fr0")
  with assms have "r = Some (KeyError k)"
    by (cases r) (simp_all add: get_winner_def get_winner_frame_def)
  with f for_items_KeyError show ?thesis by blast
qed

text \<open>
  Claim C10. For a region whose outcome value is neither "R" nor "D", the loop body
  raises the invalid-outcome \<open>ValueError\<close> from any frame, so without regard to the
  elector mapping; \<open>get_winner\<close> never reports that region as a \<open>KeyError\<close>; and when
  the entries before it are valid and present, the call raises the invalid-outcome
  error whether or not the region is in the elector mapping.
\<close>

theorem get_winner_invalid_before_lookup:
  assumes "distinct (keys o_dict)"
    and "o_dict = pre @ (s, v) # post"
    and "v \<noteq> py ''R''" and "v \<noteq> py ''D''"
  shows "loop_body (s, v) fr = (Some (ValueError invalid_outcome_msg), fr) \<and>
         get_winner e_dict o_dict \<noteq> Inl (KeyError s) \<and>
         ((\<forall>(s', v') \<in> set pre. valid_outcome v' \<and> s' \<in> set (keys e_dict)) \<longrightarrow>
            get_winner e_dict o_dict = Inl (ValueError invalid_outcome_msg))"
proof (intro conjI impI)
  have nv: "\<not> valid_outcome v"
    using assms(3,4) by (simp add: valid_outcome_def)
  then show "loop_body (s, v) fr = (Some (ValueError invalid_outcome_msg), fr)"
    by (rule loop_body_invalid)
  show "get_winner e_dict o_dict \<noteq> Inl (KeyError s)"
  proof
    assume "get_winner e_dict o_dict = Inl (KeyError s)"
    from get_winner_KeyError [OF this] obtain v' where
      v': "(s, v') \<in> set o_dict" "valid_outcome v'" by blast
    have d: "distinct (map fst o_dict)"
      using assms(1) by (simp add: keys_def)
    have "(s, v) \<in> set o_dict" using assms(2) by simp
    with d have "map_of o_dict s = Some v" by (rule map_of_is_SomeI)
    moreover from d v'(1) have "map_of o_dict s = Some v'" by (rule map_of_is_SomeI)
    ultimately have "v' = v" by simp
    with v'(2) nv show False by simp
  qed
  assume "\<forall>(s', v') \<in> set pre. valid_outcome v' \<and> s' \<in> set (keys e_dict)"
  then have pre: "\<forall>(s', v') \<in> set pre. valid_outcome v' \<and> s' \<in> dom (map_of e_dict)"
    by (auto simp: keys_def dom_map_of_conv_image_fst)
  let ?fr = "\<lparr>elector_dict = e_dict, outcome_dict = pre @ (s, v) # post,
               total_R_votes = party_total e_dict pre (py ''R''),
               total_D_votes = party_total e_dict pre (py ''D'')\<rparr>"
  have "loop_body (s, v) ?fr = (Some (ValueError invalid_outcome_msg), ?fr)"
    using nv by (rule loop_body_invalid)
  from get_winner_frame_stops [OF pre this] assms(2)
  show "get_winner e_dict o_dict = Inl (ValueError invalid_outcome_msg)"
    by (simp add: get_winner_def)
qed

theorem get_winner_invalid_before_lookup_witness:
  "getitem ex_electors (py ''Z'') = Inl (KeyError (py ''Z'')) \<and>
   get_winner ex_electors ex_outcomes_invalid_unknown \<noteq> Inl (KeyError (py ''Z'')) \<and>
   get_winner ex_electors ex_outcomes_invalid_unknown = Inl (ValueError invalid_outcome_msg)"
proof -
  have h1: "distinct (keys ex_outcomes_invalid_unknown)"
    by (simp add: ex_outcomes_invalid_unknown_def keys_def py_def)
  have h2: "ex_outcomes_invalid_unknown =
              [(py ''A'', py ''R'')] @ (py ''Z'', py ''X'') # [(py ''C'', py ''D'')]"
    by (simp add: ex_outcomes_invalid_unknown_def)
  have h3: "py ''X'' \<noteq> py ''R''" by (simp add: py_def)
  have h4: "py ''X'' \<noteq> py ''D''" by (simp add: py_def)
  have h5: "\<forall>(s', v') \<in> set [(py ''A'', py ''R'')]. valid_outcome v' \<and> s' \<in> set (keys ex_electors)"
    by (simp add: valid_outcome_def ex_electors_def keys_def)
  have g: "getitem ex_electors (py ''Z'') = Inl (KeyError (py ''Z''))"
    by (simp add: getitem_def ex_electors_def py_def)
  from get_winner_invalid_before_lookup [OF h1 h2 h3 h4, of _ ex_electors] h5 g
  show ?thesis by blast
qed

text \<open>
  Claim C7. \<open>get_winner\<close> is pure and deterministic: the call ends with both
  dictionaries as they were passed, and a second call on the dictionaries the first call
  left returns the result of the first.
\<close>

theorem get_winner_pure:
  "elector_dict (snd (get_winner_frame e_dict o_dict)) = e_dict \<and>
   outcome_dict (snd (get_winner_frame e_dict o_dict)) = o_dict \<and>
   get_winner (elector_dict (snd (get_winner_frame e_dict o_dict)))
              (outcome_dict (snd (get_winner_frame e_dict o_dict))) = get_winner e_dict o_dict"
proof -
  let ?fr0 = "\<lparr>elector_dict = e_dict, outcome_dict = o_dict,
                total_R_votes = 0, total_D_votes = 0\<rparr>"
  obtain r fr where f: "for_items o_dict ?fr0 = (r, fr)"
    by (cases "for_items o_dict ?fr0")
  have "elector_dict fr = e_dict \<and> outcome_dict fr = o_dict"
    using for_items_dicts [of o_dict ?fr0] f by simp
  moreover have "snd (get_winner_frame e_dict o_dict) = fr"
    using f by (cases r) (simp_all add: get_winner_frame_def)
  ultimately show ?thesis by simp
qed

theorem get_winner_pure_witness:
  "elector_dict (snd (get_winner_frame ex_electors ex_outcomes)) = ex_electors \<and>
   outcome_dict (snd (get_winner_frame ex_electors ex_outcomes)) = ex_outcomes \<and>
   get_winner (elector_dict (snd (get_winner_frame ex_electors ex_outcomes)))
              (outcome_dict (snd (get_winner_frame ex_electors ex_outcomes))) =
     get_winner ex_electors ex_outcomes"
  using get_winner_pure [of ex_electors ex_outcomes] by simp

section \<open>Properties of \<open>to_dict\<close>\<close>

lemma to_dict_loop_append:
  "to_dict_loop f vt (xs @ ys) d =
     (case to_dict_loop f vt xs d of Inl e \<Rightarrow> Inl e | Inr d' \<Rightarrow> to_dict_loop f vt ys d')"
proof (induction xs arbitrary: d)
  case Nil
  show ?case by simp
next
  case (Cons x xs)
  obtain n l where x: "x = (n, l)" by (cases x)
  show ?case
    unfolding x using Cons.IH by (simp add: Let_def split: sum.splits)
qed

lemma to_dict_loop_blank:
  "blank l \<Longrightarrow> to_dict_loop f vt ((n, l) # rest) d = to_dict_loop f vt rest d"
  by (simp add: blank_def)

lemma to_dict_loop_columns:
  "\<not> blank l \<Longrightarrow> length (line_fields l) \<noteq> 2 \<Longrightarrow>
   to_dict_loop f vt ((n, l) # rest) d = Inl (ValueError (columns_msg n f))"
  by (simp add: blank_def line_fields_def Let_def)

lemma to_dict_loop_conversion:
  "\<not> blank l \<Longrightarrow> length (line_fields l) = 2 \<Longrightarrow> vt (line_fields l ! 1) = Inl e \<Longrightarrow>
   to_dict_loop f vt ((n, l) # rest) d = Inl e"
  by (simp add: blank_def line_fields_def Let_def)

lemma to_dict_loop_store:
  "\<not> blank l \<Longrightarrow> length (line_fields l) = 2 \<Longrightarrow> vt (line_fields l ! 1) = Inr v \<Longrightarrow>
   to_dict_loop f vt ((n, l) # rest) d = to_dict_loop f vt rest (setitem d (line_fields l ! 0) v)"
  by (simp add: blank_def line_fields_def Let_def)

declare to_dict_loop.simps(2) [simp del]

lemma to_dict_loop_ok:
  "\<forall>l \<in> set ls. line_ok vt l \<Longrightarrow> \<exists>d'. to_dict_loop f vt (enumerate n ls) d = Inr d'"
proof (induction ls arbitrary: n d)
  case Nil
  show ?case by simp
next
  case (Cons l ls)
  show ?case
  proof (cases "blank l")
    case True
    then show ?thesis using Cons by (simp add: to_dict_loop_blank)
  next
    case False
    with Cons.prems have len: "length (line_fields l) = 2" and "converts vt l"
      by (auto simp: line_ok_def)
    then obtain v where v: "vt (line_fields l ! 1) = Inr v"
      by (auto simp: converts_def split: sum.splits)
    have "to_dict_loop f vt ((n, l) # enumerate (Suc n) ls) d =
            to_dict_loop f vt (enumerate (Suc n) ls) (setitem d (line_fields l ! 0) v)"
      using False len v by (rule to_dict_loop_store)
    then show ?thesis
      using Cons by simp
  qed
qed

lemma to_dict_loop_fails:
  "\<exists>l \<in> set ls. \<not> line_ok vt l \<Longrightarrow> \<exists>e. to_dict_loop f vt (enumerate n ls) d = Inl e"
proof (induction ls arbitrary: n d)
  case Nil
  then show ?case by simp
next
  case (Cons l ls)
  show ?case
  proof (cases "blank l")
    case True
    then have "line_ok vt l" by (simp add: line_ok_def)
    with Cons.prems have "\<exists>l \<in> set ls. \<not> line_ok vt l" by auto
    from Cons.IH [OF this] True show ?thesis by (simp add: to_dict_loop_blank)
  next
    case False
    show ?thesis
    proof (cases "length (line_fields l) = 2")
      case len: True
      show ?thesis
      proof (cases "vt (line_fields l ! 1)")
        case (Inl e)
        have "to_dict_loop f vt ((n, l) # enumerate (Suc n) ls) d = Inl e"
          using False len Inl by (rule to_dict_loop_conversion)
        then show ?thesis by simp
      next
        case (Inr v)
        then have "line_ok vt l" using len by (simp add: line_ok_def converts_def)
        with Cons.prems have "\<exists>l \<in> set ls. \<not> line_ok vt l" by auto
        have "to_dict_loop f vt ((n, l) # enumerate (Suc n) ls) d =
                to_dict_loop f vt (enumerate (Suc n) ls) (setitem d (line_fields l ! 0) v)"
          using False len Inr by (rule to_dict_loop_store)
        with Cons.IH [OF \<open>\<exists>l \<in> set ls. \<not> line_ok vt l\<close>] show ?thesis
          by simp
      qed
    next
      case False2: False
      have "to_dict_loop f vt ((n, l) # enumerate (Suc n) ls) d = Inl (ValueError (columns_msg n f))"
        using False False2 by (rule to_dict_loop_columns)
      then show ?thesis by simp
    qed
  qed
qed

lemma enumerate_split:
  assumes "i < length ls"
  shows "enumerate n ls =
           enumerate n (take i ls) @ (n + i, ls ! i) # enumerate (Suc (n + i)) (drop (Suc i) ls)"
proof -
  have "ls = take i ls @ ls ! i # drop (Suc i) ls"
    using assms by (simp add: id_take_nth_drop)
  then have "enumerate n ls = enumerate n (take i ls @ ls ! i # drop (Suc i) ls)"
    by simp
  also have "\<dots> = enumerate n (take i ls) @ (n + i, ls ! i) # enumerate (Suc (n + i)) (drop (Suc i) ls)"
    using assms by (simp add: enumerate_append_eq)
  finally show ?thesis .
qed

lemma to_dict_loop_at:
  assumes "i < length ls" and "\<forall>j<i. line_ok vt (ls ! j)"
  shows "\<exists>d'. to_dict_loop f vt (enumerate n ls) d =
               to_dict_loop f vt ((n + i, ls ! i) # enumerate (Suc (n + i)) (drop (Suc i) ls)) d'"
proof -
  have "\<forall>l \<in> set (take i ls). line_ok vt l"
    using assms by (auto simp: in_set_conv_nth)
  from to_dict_loop_ok [OF this] obtain d' where
    "to_dict_loop f vt (enumerate n (take i ls)) d = Inr d'" by blast
  then show ?thesis
    using enumerate_split [OF assms(1), of n] by (auto simp: to_dict_loop_append)
qed

lemma str_nat_value: "foldl (\<lambda>a c. 10 * a + (c - 48)) 0 (str_nat n) = n"
proof (induction n rule: str_nat.induct)
  case (1 n)
  show ?case
  proof (cases "n < 10")
    case True
    then show ?thesis by (simp add: str_nat.simps [of n])
  next
    case False
    with 1 have "foldl (\<lambda>a c. 10 * a + (c - 48)) 0 (str_nat (n div 10)) = n div 10"
      by simp
    with False show ?thesis by (simp add: str_nat.simps [of n])
  qed
qed

lemma str_nat_inj:
  assumes "str_nat m = str_nat n"
  shows "m = n"
proof -
  have "m = foldl (\<lambda>a c. 10 * a + (c - 48)) 0 (str_nat m)"
    by (simp only: str_nat_value)
  also have "\<dots> = foldl (\<lambda>a c. 10 * a + (c - 48)) 0 (str_nat n)"
    by (simp only: assms)
  also have "\<dots> = n"
    by (simp only: str_nat_value)
  finally show ?thesis .
qed

lemma columns_msg_inj: "columns_msg m f = columns_msg n f \<Longrightarrow> m = n"
  by (simp add: columns_msg_def str_nat_inj)

lemma to_dict_fails:
  assumes "fs filename = Some text" and "i < length (file_lines text)"
    and "\<not> line_ok value_type (file_lines text ! i)"
  shows "\<exists>e. to_dict fs filename value_type = Inl e"
proof -
  have "\<exists>l \<in> set (file_lines text). \<not> line_ok value_type l"
    using assms(2,3) nth_mem by blast
  from to_dict_loop_fails [OF this] show ?thesis
    using assms(1) by (simp add: to_dict_def)
qed

lemma to_dict_at:
  assumes "fs filename = Some text" and "i < length (file_lines text)"
    and "\<forall>l \<in> set (take i (file_lines text)). line_ok value_type l"
  shows "\<exists>d. to_dict fs filename value_type =
              to_dict_loop filename value_type
                ((i + 1, file_lines text ! i) #
                 enumerate (Suc (i + 1)) (drop (Suc i) (file_lines text))) d"
proof -
  have "\<forall>j<i. line_ok value_type (file_lines text ! j)"
  proof (intro allI impI)
    fix j
    assume j: "j < i"
    then have "take i (file_lines text) ! j \<in> set (take i (file_lines text))"
      using assms(2) by (intro nth_mem) simp
    then show "line_ok value_type (file_lines text ! j)"
      using assms(3) j by simp
  qed
  from to_dict_loop_at [OF assms(2) this, of filename 1 "[]"] show ?thesis
    using assms(1) by (simp add: to_dict_def)
qed

text \<open>
  Claim C4, as amended. Let line \<open>i + 1\<close> of the file (counting from 1) be a non-blank
  line whose stripped text does not split on the tab into exactly two fields. Then
  \<open>to_dict\<close> raises and returns no mapping. If moreover every line before it is
  blank or has two fields of which the conversion accepts the second, the exception is
  the \<open>ValueError\<close> whose message gives the line number \<open>i + 1\<close> and the file name,
  and no other line number gives the same message.
\<close>

theorem to_dict_format_error:
  assumes "fs filename = Some text"
    and "i < length (file_lines text)"
    and "\<not> blank (file_lines text ! i)"
    and "length (line_fields (file_lines text ! i)) \<noteq> 2"
  shows "(\<exists>e. to_dict fs filename value_type = Inl e) \<and>
         ((\<forall>l \<in> set (take i (file_lines text)). line_ok value_type l) \<longrightarrow>
            to_dict fs filename value_type = Inl (ValueError (columns_msg (i + 1) filename))) \<and>
         (\<forall>m. columns_msg m filename = columns_msg (i + 1) filename \<longrightarrow> m = i + 1)"
proof (intro conjI impI allI)
  have "\<not> line_ok value_type (file_lines text ! i)"
    using assms(3,4) by (simp add: line_ok_def)
  with assms(1,2) show "\<exists>e. to_dict fs filename value_type = Inl e"
    by (rule to_dict_fails)
next
  assume "\<forall>l \<in> set (take i (file_lines text)). line_ok value_type l"
  with assms(1,2) obtain d where
    "to_dict fs filename value_type =
       to_dict_loop filename value_type
         ((i + 1, file_lines text ! i) #
          enumerate (Suc (i + 1)) (drop (Suc i) (file_lines text))) d"
    using to_dict_at by blast
  moreover have "to_dict_loop filename value_type
         ((i + 1, file_lines text ! i) #
          enumerate (Suc (i + 1)) (drop (Suc i) (file_lines text))) d =
        Inl (ValueError (columns_msg (i + 1) filename))"
    using assms(3,4) by (rule to_dict_loop_columns)
  ultimately show "to_dict fs filename value_type = Inl (ValueError (columns_msg (i + 1) filename))"
    by simp
next
  fix m
  assume "columns_msg m filename = columns_msg (i + 1) filename"
  then show "m = i + 1" by (rule columns_msg_inj)
qed

text \<open>
  Claim C5, as amended. Let line \<open>i + 1\<close> of the file be a non-blank line of two fields
  on whose second field the caller's conversion raises \<open>e\<close>. Then \<open>to_dict\<close> raises and
  returns no mapping. If moreover every line before it is blank or has two fields of
  which the conversion accepts the second, the exception raised is \<open>e\<close> itself.
\<close>

theorem to_dict_conversion_error:
  assumes "fs filename = Some text"
    and "i < length (file_lines text)"
    and "\<not> blank (file_lines text ! i)"
    and "length (line_fields (file_lines text ! i)) = 2"
    and "value_type (line_fields (file_lines text ! i) ! 1) = Inl e"
  shows "(\<exists>e'. to_dict fs filename value_type = Inl e') \<and>
         ((\<forall>l \<in> set (take i (file_lines text)). line_ok value_type l) \<longrightarrow>
            to_dict fs filename value_type = Inl e)"
proof (intro conjI impI)
  have "\<not> line_ok value_type (file_lines text ! i)"
    using assms(3,5) by (simp add: line_ok_def converts_def)
  with assms(1,2) show "\<exists>e'. to_dict fs filename value_type = Inl e'"
    by (rule to_dict_fails)
next
  assume "\<forall>l \<in> set (take i (file_lines text)). line_ok value_type l"
  with assms(1,2) obtain d where
    "to_dict fs filename value_type =
       to_dict_loop filename value_type
         ((i + 1, file_lines text ! i) #
          enumerate (Suc (i + 1)) (drop (Suc i) (file_lines text))) d"
    using to_dict_at by blast
  moreover have "to_dict_loop filename value_type
         ((i + 1, file_lines text ! i) #
          enumerate (Suc (i + 1)) (drop (Suc i) (file_lines text))) d = Inl e"
    using assms(3,4,5) by (rule to_dict_loop_conversion)
  ultimately show "to_dict fs filename value_type = Inl e"
    by simp
qed

lemmas line_simps = py_def blank_def line_fields_def strip_def is_space_def
  line_ok_def converts_def py_int_def is_digit_def repr_def Let_def

lemmas eval_simps = line_simps file_lines_def columns_msg_def to_dict_def
  to_dict_loop.simps enumerate_eq_zip

lemma ex_three_columns_lines: "file_lines ex_three_columns =
   [[65, 9, 51, 10], [10], [66, 9, 53, 9, 120, 10]]"
  by (simp add: ex_three_columns_def eval_simps)

lemma ex_three_columns_not_blank: "\<not> blank [66, 9, 53, 9, 120, 10]"
  by (simp add: eval_simps)

lemma ex_three_columns_fields: "line_fields [66, 9, 53, 9, 120, 10] = [[66], [53], [120]]"
  by (simp add: eval_simps)

lemma ex_three_columns_before: "line_ok py_int [65, 9, 51, 10] \<and> line_ok py_int [10]"
  by (simp add: eval_simps)


theorem to_dict_format_error_witness:
  "to_dict [ex_file \<mapsto> ex_three_columns] ex_file py_int =
     Inl (ValueError (columns_msg 3 ex_file))"
proof -
  have h1: "[ex_file \<mapsto> ex_three_columns] ex_file = Some ex_three_columns" by simp
  have h2: "2 < length (file_lines ex_three_columns)" by (simp add: ex_three_columns_lines)
  have h3: "\<not> blank (file_lines ex_three_columns ! 2)" by (simp add: ex_three_columns_lines ex_three_columns_not_blank)
  have h4: "length (line_fields (file_lines ex_three_columns ! 2)) \<noteq> 2"
    by (simp add: ex_three_columns_lines ex_three_columns_fields)
  have h5: "\<forall>l \<in> set (take 2 (file_lines ex_three_columns)). line_ok py_int l"
    using ex_three_columns_before by (simp add: ex_three_columns_lines)
  from to_dict_format_error
         [of "[ex_file \<mapsto> ex_three_columns]" ex_file ex_three_columns 2 py_int, OF h1 h2 h3 h4]
       h5
  show ?thesis by simp
qed

text \<open>
  Claim C4 as stated fails: in an elector file whose first line has a value that is not
  an integer and whose second line has one field, the second line is non-blank and does
  not split into two fields, but the loader raises the conversion error of the first
  line and not the column error for line 2.
\<close>

theorem to_dict_format_error_counterexample:
  "\<not> blank (file_lines ex_bad_int_then_one_column ! 1) \<and>
   length (line_fields (file_lines ex_bad_int_then_one_column ! 1)) = 1 \<and>
   py_int (py ''x'') =
     Inl (ValueError (py ''invalid literal for int() with base 10: '' @ repr (py ''x''))) \<and>
   to_dict [ex_file \<mapsto> ex_bad_int_then_one_column] ex_file py_int =
     Inl (ValueError (py ''invalid literal for int() with base 10: '' @ repr (py ''x''))) \<and>
   to_dict [ex_file \<mapsto> ex_bad_int_then_one_column] ex_file py_int \<noteq>
     Inl (ValueError (columns_msg 2 ex_file))"
  by (simp add: ex_bad_int_then_one_column_def ex_file_def eval_simps)

theorem to_dict_conversion_error_witness:
  "to_dict [ex_file \<mapsto> ex_bad_int] ex_file py_int =
     Inl (ValueError (py ''invalid literal for int() with base 10: '' @ repr (py ''five'')))"
proof -
  have l: "file_lines ex_bad_int = [[65, 9, 51, 10], [66, 9, 102, 105, 118, 101, 10]]"
    by (simp add: ex_bad_int_def eval_simps)
  have h1: "[ex_file \<mapsto> ex_bad_int] ex_file = Some ex_bad_int" by simp
  have h2: "1 < length (file_lines ex_bad_int)" by (simp add: l)
  have h3: "\<not> blank (file_lines ex_bad_int ! 1)" by (simp add: l line_simps)
  have h4: "length (line_fields (file_lines ex_bad_int ! 1)) = 2" by (simp add: l line_simps)
  have h5: "py_int (line_fields (file_lines ex_bad_int ! 1) ! 1) =
              Inl (ValueError (py ''invalid literal for int() with base 10: '' @ repr (py ''five'')))"
    by (simp add: l line_simps)
  have h6: "\<forall>l \<in> set (take 1 (file_lines ex_bad_int)). line_ok py_int l"
    by (simp add: l line_simps)
  from to_dict_conversion_error
         [of "[ex_file \<mapsto> ex_bad_int]" ex_file ex_bad_int 1 py_int, OF h1 h2 h3 h4 h5] h6
  show ?thesis by simp
qed

text \<open>
  Claim C5 as stated fails: in an elector file whose first line has three fields and
  whose second line is a two-field line with a value that is not an integer, the loader
  raises the column error for line 1 and not the conversion error of the second line.
\<close>

theorem to_dict_conversion_error_counterexample:
  "\<not> blank (file_lines ex_three_columns_then_bad_int ! 1) \<and>
   length (line_fields (file_lines ex_three_columns_then_bad_int ! 1)) = 2 \<and>
   py_int (line_fields (file_lines ex_three_columns_then_bad_int ! 1) ! 1) =
     Inl (ValueError (py ''invalid literal for int() with base 10: '' @ repr (py ''x''))) \<and>
   to_dict [ex_file \<mapsto> ex_three_columns_then_bad_int] ex_file py_int =
     Inl (ValueError (columns_msg 1 ex_file)) \<and>
   to_dict [ex_file \<mapsto> ex_three_columns_then_bad_int] ex_file py_int \<noteq>
     Inl (ValueError (py ''invalid literal for int() with base 10: '' @ repr (py ''x'')))"
  by (simp add: ex_three_columns_then_bad_int_def ex_file_def eval_simps str_nat.simps [of 1])

lemma map_of_setitem: "map_of (setitem d k v) = (map_of d)(k \<mapsto> v)"
  by (induction d k v rule: setitem.induct) auto

lemma keys_setitem: "set (keys (setitem d k v)) = insert k (set (keys d))"
  by (induction d k v rule: setitem.induct) (auto simp: keys_def)

lemma distinct_setitem: "distinct (keys d) \<Longrightarrow> distinct (keys (setitem d k v))"
proof (induction d k v rule: setitem.induct)
  case (1 k v)
  show ?case by (simp add: keys_def)
next
  case (2 k' v' d k v)
  show ?case
  proof (cases "k' = k")
    case True
    with 2 show ?thesis by (simp add: keys_def)
  next
    case False
    with 2 have "distinct (keys (setitem d k v))" by (simp add: keys_def)
    moreover have "k' \<notin> set (keys (setitem d k v))"
      using 2(2) False by (simp add: keys_setitem) (simp add: keys_def)
    ultimately show ?thesis using False by (simp add: keys_def)
  qed
qed

lemma to_dict_loop_result:
  assumes "\<forall>x \<in> set ls. line_ok vt x"
  shows "\<exists>d'. to_dict_loop f vt (enumerate n ls) d = Inr d' \<and>
              (distinct (keys d) \<longrightarrow> distinct (keys d')) \<and>
              (\<forall>k. (\<forall>x \<in> set ls. blank x \<or> line_fields x ! 0 \<noteq> k) \<longrightarrow>
                   map_of d' k = map_of d k)"
  using assms
proof (induction ls arbitrary: n d)
  case Nil
  show ?case by simp
next
  case (Cons l ls)
  then have rest: "\<forall>x \<in> set ls. line_ok vt x" by simp
  show ?case
  proof (cases "blank l")
    case True
    have "to_dict_loop f vt ((n, l) # enumerate (Suc n) ls) d =
            to_dict_loop f vt (enumerate (Suc n) ls) d"
      using True by (rule to_dict_loop_blank)
    with Cons.IH [OF rest, of "Suc n" d] show ?thesis by auto
  next
    case False
    with Cons.prems have len: "length (line_fields l) = 2" and "converts vt l"
      by (auto simp: line_ok_def)
    then obtain v where v: "vt (line_fields l ! 1) = Inr v"
      by (auto simp: converts_def split: sum.splits)
    let ?d = "setitem d (line_fields l ! 0) v"
    have step: "to_dict_loop f vt ((n, l) # enumerate (Suc n) ls) d =
            to_dict_loop f vt (enumerate (Suc n) ls) ?d"
      using False len v by (rule to_dict_loop_store)
    from Cons.IH [OF rest, of "Suc n" ?d] obtain d' where
      d': "to_dict_loop f vt (enumerate (Suc n) ls) ?d = Inr d'"
      and dist: "distinct (keys ?d) \<longrightarrow> distinct (keys d')"
      and keep: "\<forall>k. (\<forall>x \<in> set ls. blank x \<or> line_fields x ! 0 \<noteq> k) \<longrightarrow>
                   map_of d' k = map_of ?d k"
      by blast
    have run: "to_dict_loop f vt (enumerate n (l # ls)) d = Inr d'"
      using step d' by simp
    have dist': "distinct (keys d) \<longrightarrow> distinct (keys d')"
    proof
      assume "distinct (keys d)"
      then have "distinct (keys ?d)" by (rule distinct_setitem)
      with dist show "distinct (keys d')" by simp
    qed
    have keep': "\<forall>k. (\<forall>x \<in> set (l # ls). blank x \<or> line_fields x ! 0 \<noteq> k) \<longrightarrow>
                   map_of d' k = map_of d k"
    proof (intro allI impI)
      fix k
      assume a: "\<forall>x \<in> set (l # ls). blank x \<or> line_fields x ! 0 \<noteq> k"
      then have "\<forall>x \<in> set ls. blank x \<or> line_fields x ! 0 \<noteq> k" by simp
      with keep have "map_of d' k = map_of ?d k" by blast
      moreover have "line_fields l ! 0 \<noteq> k" using a False by simp
      ultimately show "map_of d' k = map_of d k" by (simp add: map_of_setitem)
    qed
    from run dist' keep' show ?thesis by blast
  qed
qed

text \<open>
  Claim C6. In a well-formed input (every line blank, or of two fields with a second
  field that the conversion accepts), take a non-blank line \<open>l\<close> such that no later
  non-blank line has its first field. Then \<open>to_dict\<close> returns a mapping with unique
  keys that binds the first field of \<open>l\<close> to the converted second field of \<open>l\<close>:
  whatever earlier lines with the same key had stored is overwritten.
\<close>

theorem to_dict_last_write_wins:
  assumes "fs filename = Some text"
    and "file_lines text = pre @ l # post"
    and "\<forall>x \<in> set (file_lines text). line_ok value_type x"
    and "\<not> blank l"
    and "value_type (line_fields l ! 1) = Inr v"
    and "\<forall>x \<in> set post. blank x \<or> line_fields x ! 0 \<noteq> line_fields l ! 0"
  shows "\<exists>d. to_dict fs filename value_type = Inr d \<and> distinct (keys d) \<and>
             getitem d (line_fields l ! 0) = Inr v"
proof -
  let ?k = "line_fields l ! 0"
  let ?n = "1 + length pre"
  have ok_pre: "\<forall>x \<in> set pre. line_ok value_type x"
    and ok_l: "line_ok value_type l"
    and ok_post: "\<forall>x \<in> set post. line_ok value_type x"
    using assms(2,3) by simp_all
  from to_dict_loop_result [OF ok_pre, of filename 1 "[]"] obtain d1 where
    d1: "to_dict_loop filename value_type (enumerate 1 pre) [] = Inr d1"
    and dist1: "distinct (keys d1)"
    by (auto simp: keys_def)
  have len: "length (line_fields l) = 2"
    using ok_l assms(4) by (simp add: line_ok_def)
  have step: "to_dict_loop filename value_type ((?n, l) # enumerate (Suc ?n) post) d1 =
              to_dict_loop filename value_type (enumerate (Suc ?n) post) (setitem d1 ?k v)"
    using assms(4) len assms(5) by (rule to_dict_loop_store)
  from to_dict_loop_result [OF ok_post, of filename "Suc ?n" "setitem d1 ?k v"] obtain d where
    d: "to_dict_loop filename value_type (enumerate (Suc ?n) post) (setitem d1 ?k v) = Inr d"
    and dist: "distinct (keys (setitem d1 ?k v)) \<longrightarrow> distinct (keys d)"
    and keep: "\<forall>k. (\<forall>x \<in> set post. blank x \<or> line_fields x ! 0 \<noteq> k) \<longrightarrow>
                 map_of d k = map_of (setitem d1 ?k v) k"
    by blast
  have "enumerate 1 (file_lines text) = enumerate 1 pre @ (?n, l) # enumerate (Suc ?n) post"
    using assms(2) by (simp add: enumerate_append_eq)
  then have "to_dict fs filename value_type = Inr d"
    using assms(1) d1 step d by (simp add: to_dict_def to_dict_loop_append)
  moreover have "distinct (keys d)"
  proof -
    have "distinct (keys (setitem d1 ?k v))" using dist1 by (rule distinct_setitem)
    with dist show ?thesis by simp
  qed
  moreover have "getitem d ?k = Inr v"
  proof -
    from keep assms(6) have "map_of d ?k = map_of (setitem d1 ?k v) ?k" by blast
    then have "map_of d ?k = Some v" by (simp add: map_of_setitem)
    then show ?thesis by (simp add: getitem_def)
  qed
  ultimately show ?thesis by blast
qed

theorem to_dict_last_write_wins_witness:
  "to_dict [ex_file \<mapsto> ex_duplicate_key] ex_file py_int = Inr [(py ''A'', 7), (py ''B'', 5)] \<and>
   line_fields [65, 9, 51, 10] ! 0 = line_fields [65, 9, 55, 10] ! 0 \<and>
   (\<exists>d. to_dict [ex_file \<mapsto> ex_duplicate_key] ex_file py_int = Inr d \<and> distinct (keys d) \<and>
        getitem d (py ''A'') = Inr 7)"
proof -
  have l: "file_lines ex_duplicate_key = [[65, 9, 51, 10], [66, 9, 53, 10]] @ [65, 9, 55, 10] # []"
    by (simp add: ex_duplicate_key_def file_lines_def py_def)
  have h1: "[ex_file \<mapsto> ex_duplicate_key] ex_file = Some ex_duplicate_key" by simp
  have h3: "\<forall>x \<in> set (file_lines ex_duplicate_key). line_ok py_int x"
    by (simp add: l line_simps)
  have h4: "\<not> blank [65, 9, 55, 10]" by (simp add: line_simps)
  have h5: "py_int (line_fields [65, 9, 55, 10] ! 1) = Inr 7" by (simp add: line_simps)
  have h6: "\<forall>x \<in> set []. blank x \<or> line_fields x ! 0 \<noteq> line_fields [65, 9, 55, 10] ! 0"
    by simp
  have k: "line_fields [65, 9, 55, 10] ! 0 = py ''A''" by (simp add: line_simps)
  have k': "line_fields [65, 9, 51, 10] ! 0 = py ''A''" by (simp add: line_simps)
  have e: "to_dict [ex_file \<mapsto> ex_duplicate_key] ex_file py_int = Inr [(py ''A'', 7), (py ''B'', 5)]"
    by (simp add: ex_duplicate_key_def eval_simps)
  from to_dict_last_write_wins
         [of "[ex_file \<mapsto> ex_duplicate_key]" ex_file ex_duplicate_key
             "[[65, 9, 51, 10], [66, 9, 53, 10]]" "[65, 9, 55, 10]" "[]" py_int 7,
          OF h1 l h3 h4 h5 h6]
  have "\<exists>d. to_dict [ex_file \<mapsto> ex_duplicate_key] ex_file py_int = Inr d \<and> distinct (keys d) \<and>
        getitem d (py ''A'') = Inr 7"
    by (simp only: k)
  with e k k' show ?thesis by simp
qed

lemma universal_newlines_no_cr: "13 \<notin> set (universal_newlines t)"
  by (induction t rule: universal_newlines.induct) auto

lemma universal_newlines_id: "13 \<notin> set t \<Longrightarrow> universal_newlines t = t"
  by (induction t rule: universal_newlines.induct) auto

lemma concat_iter_lines: "concat (iter_lines t) = t"
  by (induction t) (auto split: list.splits)

lemma iter_lines_line:
  "l \<in> set (iter_lines t) \<Longrightarrow> l \<noteq> [] \<and> 10 \<notin> set (butlast l)"
proof (induction t arbitrary: l)
  case Nil
  then show ?case by simp
next
  case (Cons c cs)
  show ?case
  proof (cases "c = 10")
    case True
    with Cons show ?thesis by auto
  next
    case False
    show ?thesis
    proof (cases "iter_lines cs")
      case Nil
      with Cons.prems False show ?thesis by simp
    next
      case (Cons l' ls)
      then have l': "l' \<noteq> [] \<and> 10 \<notin> set (butlast l')"
        using Cons.IH [of l'] by simp
      from Cons.prems False Cons have "l = c # l' \<or> l \<in> set (iter_lines cs)"
        by auto
      then show ?thesis
      proof
        assume "l = c # l'"
        with l' False show ?thesis by simp
      next
        assume "l \<in> set (iter_lines cs)"
        then show ?thesis by (rule Cons.IH)
      qed
    qed
  qed
qed

lemma iter_lines_terminated:
  "10 \<notin> set a \<Longrightarrow> iter_lines (a @ 10 # rest) = (a @ [10]) # iter_lines rest"
  by (induction a) auto

lemma file_lines_line:
  assumes "l \<in> set (file_lines text)"
  shows "10 \<notin> set (butlast l) \<and> 13 \<notin> set l"
proof -
  have "set l \<subseteq> set (concat (file_lines text))"
    using assms by auto
  then have "set l \<subseteq> set (universal_newlines text)"
    by (simp add: file_lines_def concat_iter_lines)
  then have "13 \<notin> set l"
    using universal_newlines_no_cr by blast
  moreover have "10 \<notin> set (butlast l)"
    using assms iter_lines_line by (simp add: file_lines_def)
  ultimately show ?thesis by simp
qed

lemma split_on_nonempty: "split_on c s \<noteq> []"
  by (induction s) (auto split: list.splits)

lemma split_on_one: "split_on c s = [w] \<Longrightarrow> s = w \<and> c \<notin> set w"
proof (induction s arbitrary: w)
  case Nil
  then show ?case by simp
next
  case (Cons x xs)
  show ?case
  proof (cases "x = c")
    case True
    with Cons.prems split_on_nonempty [of c xs] show ?thesis by simp
  next
    case False
    with Cons.prems split_on_nonempty [of c xs]
    obtain w' where "split_on c xs = [w']" and "w = x # w'"
      by (auto split: list.splits)
    with Cons.IH [of w'] False show ?thesis by simp
  qed
qed

lemma split_on_two:
  "split_on c s = [k, v] \<Longrightarrow> s = k @ c # v \<and> c \<notin> set k \<and> c \<notin> set v"
proof (induction s arbitrary: k)
  case Nil
  then show ?case by simp
next
  case (Cons x xs)
  show ?case
  proof (cases "x = c")
    case True
    with Cons.prems have "k = []" and "split_on c xs = [v]" by simp_all
    with split_on_one [of c xs v] True show ?thesis by simp
  next
    case False
    with Cons.prems split_on_nonempty [of c xs]
    obtain k' where "split_on c xs = [k', v]" and "k = x # k'"
      by (auto split: list.splits)
    with Cons.IH [of k'] False show ?thesis by simp
  qed
qed

lemma split_on_single: "c \<notin> set v \<Longrightarrow> split_on c v = [v]"
  by (induction v) auto

lemma split_on_pair:
  "c \<notin> set k \<Longrightarrow> c \<notin> set v \<Longrightarrow> split_on c (k @ c # v) = [k, v]"
  by (induction k) (auto simp: split_on_single)

lemma is_space_tab_nl: "is_space 9" "is_space 10"
  by (simp_all add: is_space_def)

lemma last_dropWhile: "dropWhile P xs \<noteq> [] \<Longrightarrow> last (dropWhile P xs) = last xs"
  by (induction xs) (auto split: if_splits)

lemma strip_decomp: "\<exists>a b. l = a @ strip l @ b"
proof -
  let ?m = "dropWhile is_space l"
  have "strip l @ rev (takeWhile is_space (rev ?m)) =
          rev (takeWhile is_space (rev ?m) @ dropWhile is_space (rev ?m))"
    by (simp only: strip_def rev_append)
  also have "\<dots> = rev (rev ?m)"
    by (simp only: takeWhile_dropWhile_id)
  also have "\<dots> = ?m"
    by (simp only: rev_rev_ident)
  finally have "?m = strip l @ rev (takeWhile is_space (rev ?m))"
    by (rule sym)
  moreover have "l = takeWhile is_space l @ ?m" by simp
  ultimately have "l = takeWhile is_space l @ strip l @ rev (takeWhile is_space (rev ?m))"
    by simp
  then show ?thesis by blast
qed

lemma set_strip: "set (strip l) \<subseteq> set l"
  using strip_decomp [of l] by (metis Un_upper1 Un_upper2 set_append subset_trans)

lemma strip_ends:
  assumes "strip l \<noteq> []"
  shows "\<not> is_space (hd (strip l)) \<and> \<not> is_space (last (strip l))"
proof -
  let ?m = "dropWhile is_space l"
  let ?r = "dropWhile is_space (rev ?m)"
  have r: "?r \<noteq> []" using assms by (simp add: strip_def)
  have m: "?m \<noteq> []"
  proof
    assume "?m = []"
    then have "?r = []" by (simp only: rev.simps dropWhile.simps)
    with r show False by blast
  qed
  have "last (strip l) = hd ?r"
    using r by (simp add: strip_def last_rev)
  moreover have "\<not> is_space (hd ?r)"
    using r by (rule hd_dropWhile)
  moreover have "hd (strip l) = last ?r"
    using r by (simp add: strip_def hd_rev)
  moreover have "last ?r = last (rev ?m)"
    using r by (rule last_dropWhile)
  moreover have "last (rev ?m) = hd ?m"
    using m by (simp add: last_rev)
  moreover have "\<not> is_space (hd ?m)"
    using m by (rule hd_dropWhile)
  ultimately show ?thesis by simp
qed

lemma butlast_middle:
  assumes "xs \<noteq> []"
  shows "set (butlast xs) \<subseteq> set (butlast (a @ xs @ b))"
proof -
  have "butlast (a @ xs @ b) = a @ butlast (xs @ b)"
    using assms by (simp add: butlast_append)
  moreover have "set (butlast xs) \<subseteq> set (butlast (xs @ b))"
    by (auto simp: butlast_append dest: in_set_butlastD)
  ultimately show ?thesis by auto
qed

lemma strip_no_newline:
  assumes "10 \<notin> set (butlast l)"
  shows "10 \<notin> set (strip l)"
proof (cases "strip l = []")
  case True
  then show ?thesis by simp
next
  case False
  obtain a b where l: "l = a @ strip l @ b"
    using strip_decomp by blast
  have "set (butlast (strip l)) \<subseteq> set (butlast (a @ strip l @ b))"
    using False by (rule butlast_middle)
  with l assms have "10 \<notin> set (butlast (strip l))" by auto
  moreover have "last (strip l) \<noteq> 10"
    using strip_ends [OF False] is_space_tab_nl(2) by auto
  moreover have "strip l = butlast (strip l) @ [last (strip l)]"
    using False by simp
  ultimately show ?thesis
    by (metis Un_iff empty_iff empty_set set_ConsD set_append)
qed

lemma strip_line:
  assumes "s \<noteq> []" and "\<not> is_space (hd s)" and "\<not> is_space (last s)"
  shows "strip (s @ [10]) = s"
proof -
  obtain x xs where s: "s = x # xs" using assms(1) by (cases s) auto
  have a: "dropWhile is_space (s @ [10]) = s @ [10]"
    using s assms(2) by simp
  have "rev s \<noteq> []" using assms(1) by simp
  then obtain y ys where r: "rev s = y # ys" by (cases "rev s") auto
  then have "y = last s" using assms(1) by (metis hd_rev list.sel(1))
  then have "dropWhile is_space (y # ys) = y # ys"
    using assms(3) by simp
  then have b: "dropWhile is_space (rev s) = rev s"
    by (simp only: r)
  show ?thesis
    by (simp add: strip_def a b is_space_tab_nl)
qed

lemma line_entry_clean:
  assumes "10 \<notin> set (butlast l)" and "13 \<notin> set l"
    and "\<not> blank l" and "length (line_fields l) = 2"
  shows "clean_entry (line_fields l ! 0, line_fields l ! 1)"
proof -
  from assms(4) obtain k v where kv: "line_fields l = [k, v]"
    by (cases "line_fields l" rule: list.exhaust)
       (auto simp: length_Suc_conv)
  then have "split_on 9 (strip l) = [k, v]"
    by (simp add: line_fields_def)
  from split_on_two [OF this] have
    s: "strip l = k @ 9 # v" and tk: "9 \<notin> set k" and tv: "9 \<notin> set v"
    by simp_all
  have ne: "strip l \<noteq> []" using assms(3) by (simp add: blank_def)
  from strip_ends [OF ne] have
    h: "\<not> is_space (hd (strip l))" and t: "\<not> is_space (last (strip l))"
    by simp_all
  have k: "k \<noteq> []"
    using h s is_space_tab_nl(1) by (cases k) auto
  have v: "v \<noteq> []"
    using t s is_space_tab_nl(1) by (cases v) auto
  have hk: "\<not> is_space (hd k)" using h s k by (cases k) auto
  have lv: "\<not> is_space (last v)" using t s v by simp
  have "10 \<notin> set (strip l)" using assms(1) by (rule strip_no_newline)
  then have n: "10 \<notin> set k" "10 \<notin> set v" using s by simp_all
  have "13 \<notin> set (strip l)" using assms(2) set_strip by blast
  then have c: "13 \<notin> set k" "13 \<notin> set v" using s by simp_all
  show ?thesis
    using kv k v hk lv tk tv n c by (simp add: clean_entry_def)
qed

lemma set_setitem: "set (setitem d k v) \<subseteq> insert (k, v) (set d)"
  by (induction d k v rule: setitem.induct) auto

lemma setitem_fresh: "k \<notin> set (keys d) \<Longrightarrow> setitem d k v = d @ [(k, v)]"
  by (induction d k v rule: setitem.induct) (auto simp: keys_def)

lemma to_dict_loop_clean:
  assumes "\<forall>x \<in> set ls. 10 \<notin> set (butlast x) \<and> 13 \<notin> set x"
    and "\<forall>e \<in> set d. clean_entry e" and "distinct (keys d)"
    and "to_dict_loop f py_str (enumerate n ls) d = Inr d'"
  shows "(\<forall>e \<in> set d'. clean_entry e) \<and> distinct (keys d')"
  using assms
proof (induction ls arbitrary: n d)
  case Nil
  then show ?case by simp
next
  case (Cons l ls)
  from Cons.prems(1) have rest: "\<forall>x \<in> set ls. 10 \<notin> set (butlast x) \<and> 13 \<notin> set x"
    and l: "10 \<notin> set (butlast l)" "13 \<notin> set l"
    by simp_all
  show ?case
  proof (cases "blank l")
    case True
    have "to_dict_loop f py_str ((n, l) # enumerate (Suc n) ls) d =
            to_dict_loop f py_str (enumerate (Suc n) ls) d"
      using True by (rule to_dict_loop_blank)
    with Cons.prems(4) have "to_dict_loop f py_str (enumerate (Suc n) ls) d = Inr d'"
      by simp
    from Cons.IH [OF rest Cons.prems(2,3) this] show ?thesis .
  next
    case False
    show ?thesis
    proof (cases "length (line_fields l) = 2")
      case len: True
      let ?k = "line_fields l ! 0" and ?v = "line_fields l ! 1"
      have conv: "py_str ?v = Inr ?v" by (simp add: py_str_def)
      have "to_dict_loop f py_str ((n, l) # enumerate (Suc n) ls) d =
              to_dict_loop f py_str (enumerate (Suc n) ls) (setitem d ?k ?v)"
        using False len conv by (rule to_dict_loop_store)
      with Cons.prems(4) have
        run: "to_dict_loop f py_str (enumerate (Suc n) ls) (setitem d ?k ?v) = Inr d'"
        by simp
      have "clean_entry (?k, ?v)"
        using l False len by (rule line_entry_clean)
      with Cons.prems(2) set_setitem [of d ?k ?v]
      have clean: "\<forall>e \<in> set (setitem d ?k ?v). clean_entry e"
        by auto
      have dist: "distinct (keys (setitem d ?k ?v))"
        using Cons.prems(3) by (rule distinct_setitem)
      from Cons.IH [OF rest clean dist run] show ?thesis .
    next
      case bad: False
      have "to_dict_loop f py_str ((n, l) # enumerate (Suc n) ls) d =
              Inl (ValueError (columns_msg n f))"
        using False bad by (rule to_dict_loop_columns)
      with Cons.prems(4) show ?thesis by simp
    qed
  qed
qed

lemma to_dict_clean:
  assumes "fs filename = Some text" and "to_dict fs filename py_str = Inr d"
  shows "(\<forall>e \<in> set d. clean_entry e) \<and> distinct (keys d)"
proof -
  have lines: "\<forall>x \<in> set (file_lines text). 10 \<notin> set (butlast x) \<and> 13 \<notin> set x"
    using file_lines_line by blast
  have run: "to_dict_loop filename py_str (enumerate 1 (file_lines text)) [] = Inr d"
    using assms by (simp add: to_dict_def)
  have e: "\<forall>e \<in> set ([] :: pystr dict). clean_entry e" by simp
  have k: "distinct (keys ([] :: pystr dict))" by (simp add: keys_def)
  from to_dict_loop_clean [OF lines e k run] show ?thesis .
qed

lemma clean_line:
  assumes "clean_entry (k, v)"
  shows "\<not> blank (k @ [9] @ v @ [10]) \<and> line_fields (k @ [9] @ v @ [10]) = [k, v]"
proof -
  let ?s = "k @ 9 # v"
  from assms have k: "k \<noteq> []" and v: "v \<noteq> []"
    and hk: "\<not> is_space (hd k)" and lv: "\<not> is_space (last v)"
    and tk: "9 \<notin> set k" and tv: "9 \<notin> set v"
    by (simp_all add: clean_entry_def)
  have "?s \<noteq> []" by simp
  moreover have "\<not> is_space (hd ?s)" using k hk by simp
  moreover have "\<not> is_space (last ?s)" using v lv by simp
  ultimately have "strip (?s @ [10]) = ?s" by (rule strip_line)
  then have s: "strip (k @ [9] @ v @ [10]) = ?s" by simp
  have "split_on 9 ?s = [k, v]" using tk tv by (rule split_on_pair)
  with s show ?thesis by (simp add: blank_def line_fields_def)
qed

lemma serialize_no_cr:
  "\<forall>e \<in> set d. clean_entry e \<Longrightarrow> 13 \<notin> set (serialize d)"
proof (induction d)
  case Nil
  show ?case by (simp add: serialize_def)
next
  case (Cons e d)
  obtain k v where e: "e = (k, v)" by (cases e)
  with Cons.prems have "13 \<notin> set k" and "13 \<notin> set v"
    by (simp_all add: clean_entry_def)
  moreover have "13 \<notin> set (serialize d)"
    using Cons by simp
  moreover have "serialize (e # d) = k @ [9] @ v @ [10] @ serialize d"
    using e by (simp add: serialize_def)
  ultimately show ?case by simp
qed

lemma iter_lines_serialize:
  "\<forall>e \<in> set d. clean_entry e \<Longrightarrow>
   iter_lines (serialize d) = map (\<lambda>(k, v). k @ [9] @ v @ [10]) d"
proof (induction d)
  case Nil
  show ?case by (simp add: serialize_def)
next
  case (Cons e d)
  obtain k v where e: "e = (k, v)" by (cases e)
  with Cons.prems have "10 \<notin> set (k @ 9 # v)"
    by (simp add: clean_entry_def)
  then have "iter_lines ((k @ 9 # v) @ 10 # serialize d) =
               ((k @ 9 # v) @ [10]) # iter_lines (serialize d)"
    by (rule iter_lines_terminated)
  moreover have "serialize (e # d) = (k @ 9 # v) @ 10 # serialize d"
    using e by (simp add: serialize_def)
  ultimately show ?case using Cons e by simp
qed

lemma file_lines_serialize:
  assumes "\<forall>e \<in> set d. clean_entry e"
  shows "file_lines (serialize d) = map (\<lambda>(k, v). k @ [9] @ v @ [10]) d"
  using assms
  by (simp add: file_lines_def universal_newlines_id serialize_no_cr iter_lines_serialize)

lemma reload_loop:
  assumes "\<forall>e \<in> set d. clean_entry e" and "distinct (keys (acc @ d))"
  shows "to_dict_loop f py_str (enumerate n (map (\<lambda>(k, v). k @ [9] @ v @ [10]) d)) acc =
           Inr (acc @ d)"
  using assms
proof (induction d arbitrary: acc n)
  case Nil
  show ?case by simp
next
  case (Cons e d)
  obtain k v where e: "e = (k, v)" by (cases e)
  let ?l = "k @ [9] @ v @ [10]"
  have c: "clean_entry (k, v)" using Cons.prems(1) e by simp
  from clean_line [OF c] have nb: "\<not> blank ?l" and lf: "line_fields ?l = [k, v]"
    by simp_all
  have len: "length (line_fields ?l) = 2" using lf by simp
  have conv: "py_str (line_fields ?l ! 1) = Inr v" using lf by (simp add: py_str_def)
  let ?rest = "enumerate (Suc n) (map (\<lambda>(k, v). k @ [9] @ v @ [10]) d)"
  have "to_dict_loop f py_str ((n, ?l) # ?rest) acc =
          to_dict_loop f py_str ?rest (setitem acc (line_fields ?l ! 0) v)"
    using to_dict_loop_store [where l = ?l and vt = py_str and v = v, OF nb len conv] .
  then have step: "to_dict_loop f py_str ((n, ?l) # ?rest) acc =
          to_dict_loop f py_str ?rest (setitem acc k v)"
    using lf by simp
  have "keys (acc @ e # d) = keys acc @ k # keys d"
    using e by (simp add: keys_def)
  with Cons.prems(2) have ks: "distinct (keys acc @ k # keys d)"
    by (simp only:)
  then have "k \<notin> set (keys acc)"
    by simp
  then have fresh: "setitem acc k v = acc @ [(k, v)]" by (rule setitem_fresh)
  have rest: "\<forall>e \<in> set d. clean_entry e" using Cons.prems(1) by simp
  have "keys ((acc @ [(k, v)]) @ d) = keys acc @ k # keys d"
    by (simp add: keys_def)
  with ks have dist: "distinct (keys ((acc @ [(k, v)]) @ d))"
    by (simp only:)
  have "to_dict_loop f py_str ?rest (acc @ [(k, v)]) = Inr ((acc @ [(k, v)]) @ d)"
    using rest dist by (rule Cons.IH)
  then have "to_dict_loop f py_str ((n, ?l) # ?rest) acc = Inr (acc @ e # d)"
    using step fresh e by simp
  moreover have "enumerate n (map (\<lambda>(k, v). k @ [9] @ v @ [10]) (e # d)) = (n, ?l) # ?rest"
    using e by simp
  ultimately show ?case by (simp only:)
qed

text \<open>
  Claim C8. Round trip: when \<open>to_dict\<close> with the identity conversion accepts a file and
  returns the mapping \<open>d\<close>, loading a file that holds the key/value pairs of \<open>d\<close> as
  tab-joined lines returns \<open>d\<close> again, with the entries in the same order.
\<close>

theorem to_dict_round_trip:
  assumes "fs filename = Some text"
    and "to_dict fs filename py_str = Inr d"
    and "fs' filename' = Some (serialize d)"
  shows "to_dict fs' filename' py_str = Inr d"
proof -
  from to_dict_clean [OF assms(1,2)] have
    clean: "\<forall>e \<in> set d. clean_entry e" and dist: "distinct (keys d)"
    by simp_all
  have "distinct (keys ([] @ d))" using dist by simp
  with clean have
    "to_dict_loop filename' py_str (enumerate 1 (map (\<lambda>(k, v). k @ [9] @ v @ [10]) d)) [] =
       Inr ([] @ d)"
    by (rule reload_loop)
  moreover have "file_lines (serialize d) = map (\<lambda>(k, v). k @ [9] @ v @ [10]) d"
    using clean by (rule file_lines_serialize)
  ultimately show ?thesis
    using assms(3) by (simp add: to_dict_def)
qed

theorem to_dict_round_trip_witness:
  "to_dict [ex_file \<mapsto> ex_outcome_text] ex_file py_str =
     Inr [(py ''A'', py ''D''), (py ''B '', py '' D'')] \<and>
   to_dict [ex_copy \<mapsto> serialize [(py ''A'', py ''D''), (py ''B '', py '' D'')]] ex_copy py_str =
     Inr [(py ''A'', py ''D''), (py ''B '', py '' D'')]"
proof -
  let ?d = "[(py ''A'', py ''D''), (py ''B '', py '' D'')]"
  have h1: "[ex_file \<mapsto> ex_outcome_text] ex_file = Some ex_outcome_text" by simp
  have h2: "to_dict [ex_file \<mapsto> ex_outcome_text] ex_file py_str = Inr ?d"
    by (simp add: ex_outcome_text_def py_str_def eval_simps)
  have h3: "[ex_copy \<mapsto> serialize ?d] ex_copy = Some (serialize ?d)" by simp
  from to_dict_round_trip
         [of "[ex_file \<mapsto> ex_outcome_text]" ex_file ex_outcome_text ?d
             "[ex_copy \<mapsto> serialize ?d]" ex_copy, OF h1 h2 h3]
       h2
  show ?thesis by (simp only: simp_thms)
qed

end
